theory Spec2Isabelle
  imports Complex_Main "HOL-Library.Multiset"
begin

section \<open>Pagination model\<close>

text \<open>
  The \<^verbatim>\<open>Pagination\<close> component of the search page computes the entries it shows
  from \<^verbatim>\<open>currentPage\<close> and \<^verbatim>\<open>totalPages\<close>. An entry of the array
  \<^verbatim>\<open>pages: (number | string)[]\<close> is a page number or a string; the only string
  pushed is the ellipsis.
\<close>

datatype page_entry = Num int | Str string

definition ellipsis :: page_entry where
  "ellipsis = Str ''...''"

text \<open>
  The loop \<^verbatim>\<open>for (let i = 1; i <= totalPages; i++) pages.push(i)\<close>, started at
  any \<open>i\<close> with the array built so far.
\<close>

function pushPages :: "int \<Rightarrow> int \<Rightarrow> page_entry list \<Rightarrow> page_entry list" where
  "pushPages i totalPages pages =
     (if i \<le> totalPages then pushPages (i + 1) totalPages (pages @ [Num i]) else pages)"
  by pat_completeness auto
termination
  by (relation "measure (\<lambda>(i, totalPages, pages). nat (totalPages + 1 - i))") auto

declare pushPages.simps [simp del]

definition getVisiblePages :: "int \<Rightarrow> int \<Rightarrow> page_entry list" where
  "getVisiblePages currentPage totalPages =
     (let showEllipsis = (totalPages > 7) in
      if \<not> showEllipsis then pushPages 1 totalPages []
      else if currentPage \<le> 4 then
        [Num 1, Num 2, Num 3, Num 4, Num 5, ellipsis, Num totalPages]
      else if currentPage \<ge> totalPages - 3 then
        [Num 1, ellipsis, Num (totalPages - 4), Num (totalPages - 3),
         Num (totalPages - 2), Num (totalPages - 1), Num totalPages]
      else
        [Num 1, ellipsis, Num (currentPage - 1), Num currentPage,
         Num (currentPage + 1), ellipsis, Num totalPages])"

text \<open>
  The algorithm in the words of the specification (section 4.3), to be compared with
  the component's function.
\<close>

definition visiblePages_spec :: "int \<Rightarrow> int \<Rightarrow> page_entry list" where
  "visiblePages_spec current totalPages =
     (if totalPages \<le> 7 then map Num [1..totalPages]
      else if current \<le> 4 then
        [Num 1, Num 2, Num 3, Num 4, Num 5, ellipsis, Num totalPages]
      else if current \<ge> totalPages - 3 then
        [Num 1, ellipsis, Num (totalPages - 4), Num (totalPages - 3), Num (totalPages - 2),
         Num (totalPages - 1), Num totalPages]
      else
        [Num 1, ellipsis, Num (current - 1), Num current, Num (current + 1),
         ellipsis, Num totalPages])"

section \<open>The search service\<close>

text \<open>
  \<^verbatim>\<open>Publication\<close> and \<^verbatim>\<open>SearchResponse\<close> of the API service. The
  fields of the response carry the prefix \<open>resp_\<close>; the source calls them
  \<^verbatim>\<open>results\<close>, \<^verbatim>\<open>total\<close>, \<^verbatim>\<open>page\<close>, \<^verbatim>\<open>size\<close> and
  \<^verbatim>\<open>total_pages\<close>. A score is a number read from JSON, hence never NaN.
\<close>

record publication =
  title :: string
  link :: string
  authors :: "string list"
  published_date :: string
  abstract :: string
  score :: rat

record search_response =
  resp_results :: "publication list"
  resp_total :: int
  resp_page :: int
  resp_size :: int
  resp_total_pages :: int

text \<open>
  What \<^verbatim>\<open>fetch\<close> does with a request: it rejects with a \<^verbatim>\<open>TypeError\<close> that
  carries the runtime's message (a transport failure), or it resolves with a status
  code and a body; \<^verbatim>\<open>response.json()\<close> rejects with a \<^verbatim>\<open>SyntaxError\<close> when
  the body is not JSON. A body that is JSON is handed over as it is: a search response,
  or the JSON value \<^verbatim>\<open>null\<close>, the one JSON value whose properties cannot be
  read. (A JSON value of another shape raises nothing when its properties are read;
  it is outside the type \<^verbatim>\<open>SearchResponse\<close> and is not modelled.)
\<close>

datatype http_body = NotJson string | JsonNull | Json search_response

datatype fetch_outcome = NetworkFailure string | HttpResponse nat http_body

text \<open>A thrown JavaScript value: an \<^verbatim>\<open>Error\<close> with its message, or anything else.\<close>

datatype thrown = ErrorObject string | OtherValue

fun showNat :: "nat \<Rightarrow> string" where
  "showNat n =
     (if n < 10 then [char_of (48 + n)]
      else showNat (n div 10) @ [char_of (48 + n mod 10)])"

declare showNat.simps [simp del]

definition response_ok :: "nat \<Rightarrow> bool" where
  "response_ok status = (200 \<le> status \<and> status \<le> 299)"

text \<open>
  \<^verbatim>\<open>ApiService.searchPublications\<close>, as a function of what the network answers.
  The result is the value the promise resolves with (\<open>Inr\<close>, where \<open>None\<close> is
  \<^verbatim>\<open>null\<close>) or the value it rejects with (\<open>Inl\<close>).
\<close>

definition ApiService_searchPublications ::
  "fetch_outcome \<Rightarrow> thrown + search_response option" where
  "ApiService_searchPublications outcome =
     (case outcome of
        NetworkFailure m \<Rightarrow> Inl (ErrorObject m)
      | HttpResponse status body \<Rightarrow>
          if \<not> response_ok status
          then Inl (ErrorObject (''HTTP error! status: '' @ showNat status))
          else (case body of
                  NotJson m \<Rightarrow> Inl (ErrorObject m)
                | JsonNull \<Rightarrow> Inr None
                | Json data \<Rightarrow> Inr (Some data)))"

section \<open>The search session controller\<close>

datatype sort_order = Asc | Desc

text \<open>
  The state of \<^verbatim>\<open>SearchComponent\<close>: one field for each \<^verbatim>\<open>useState\<close> and for
  the \<^verbatim>\<open>debounceRef\<close>, which holds the handle of the last timer armed.
\<close>

record session_state =
  query :: string
  debouncedQuery :: string
  results :: "publication list"
  loading :: bool
  currentPage :: int
  totalPages :: int
  totalResults :: int
  pageSize :: int
  error :: "string option"
  searchTime :: rat
  sortBy :: string
  sortOrder :: sort_order
  debounceRef :: "nat option"

text \<open>
  A timer of the host armed by \<^verbatim>\<open>setTimeout\<close>: its handle, the time it is due
  (milliseconds) and the query its callback closes over. A request handed to the
  network that has not resolved yet, with the time \<^verbatim>\<open>performance.now()\<close> gave
  before it was issued.
\<close>

record timeout_entry =
  timer_id :: nat
  timer_due :: nat
  timer_query :: string

record pending_request =
  req_query :: string
  req_page :: int
  req_size :: int
  req_start :: nat

text \<open>
  The component in its environment: the clock, the host's pending timers, the requests
  in flight, the prop \<^verbatim>\<open>onResultsChange\<close> (present or not), and four logs of what
  the component did to the outside: the queries the debounce timer committed, the
  calls of \<^verbatim>\<open>ApiService.searchPublications\<close>, the totals passed to
  \<^verbatim>\<open>onResultsChange\<close>, and the calls of \<^verbatim>\<open>window.scrollTo\<close>.
\<close>

record controller = session_state +
  now :: nat
  timers :: "timeout_entry list"
  nextTimerId :: nat
  inflight :: "pending_request list"
  hasOnResultsChange :: bool
  emitted :: "string list"
  issued :: "(string \<times> int \<times> int) list"
  notified :: "int list"
  scrolls :: nat

subsection \<open>Timers and the debounce effect\<close>

definition clearTimeout :: "nat \<Rightarrow> controller \<Rightarrow> controller" where
  "clearTimeout h st = st\<lparr>timers := filter (\<lambda>t. timer_id t \<noteq> h) (timers st)\<rparr>"

text \<open>\<^verbatim>\<open>setTimeout\<close> returns the handle \<open>nextTimerId st\<close>.\<close>

definition setTimeout :: "string \<Rightarrow> nat \<Rightarrow> controller \<Rightarrow> controller" where
  "setTimeout q delay st =
     st\<lparr>timers := timers st @
            [\<lparr>timer_id = nextTimerId st, timer_due = now st + delay, timer_query = q\<rparr>],
        nextTimerId := Suc (nextTimerId st)\<rparr>"

text \<open>
  The cleanup the debounce effect returns, and the effect's body:
  \<^verbatim>\<open>if (debounceRef.current) clearTimeout(debounceRef.current)\<close>, then
  \<^verbatim>\<open>debounceRef.current = setTimeout(() => setDebouncedQuery(query), 4000)\<close>.
\<close>

definition debounceCleanup :: "controller \<Rightarrow> controller" where
  "debounceCleanup st = (case debounceRef st of None \<Rightarrow> st | Some h \<Rightarrow> clearTimeout h st)"

definition debounceEffect :: "controller \<Rightarrow> controller" where
  "debounceEffect st =
     (let st1 = (case debounceRef st of None \<Rightarrow> st | Some h \<Rightarrow> clearTimeout h st)
      in (setTimeout (query st1) 4000 st1)\<lparr>debounceRef := Some (nextTimerId st1)\<rparr>)"

subsection \<open>The search function\<close>

text \<open>
  \<^verbatim>\<open>searchPublications\<close> is asynchronous. A call runs to its \<^verbatim>\<open>await\<close>: it
  sets \<^verbatim>\<open>loading\<close>, clears \<^verbatim>\<open>error\<close>, reads the clock and hands the request to
  the network. It resumes when the request resolves, with the value or the exception
  of \<^verbatim>\<open>ApiService.searchPublications\<close>; \<^verbatim>\<open>finally\<close> clears \<^verbatim>\<open>loading\<close> on
  every path.
\<close>

definition searchPublications_call :: "string \<Rightarrow> int \<Rightarrow> controller \<Rightarrow> controller" where
  "searchPublications_call searchQuery page st =
     st\<lparr>loading := True,
        error := None,
        inflight := inflight st @
          [\<lparr>req_query = searchQuery, req_page = page, req_size = pageSize st,
            req_start = now st\<rparr>],
        issued := issued st @ [(searchQuery, page, pageSize st)]\<rparr>"

text \<open>
  The \<^verbatim>\<open>catch\<close> branch followed by \<^verbatim>\<open>finally\<close>.
\<close>

definition catchBranch :: "thrown \<Rightarrow> controller \<Rightarrow> controller" where
  "catchBranch err st =
     st\<lparr>error := Some (case err of ErrorObject m \<Rightarrow> m
                         | OtherValue \<Rightarrow> ''An error occurred''),
        results := [],
        loading := False\<rparr>"

text \<open>
  The message of the \<^verbatim>\<open>TypeError\<close> that reading \<^verbatim>\<open>data.results\<close> raises when
  \<^verbatim>\<open>data\<close> is \<^verbatim>\<open>null\<close>, in the wording of V8; other hosts word it
  differently.
\<close>

definition nullReadMessage :: string where
  "nullReadMessage =
     ''Cannot read properties of null (reading '' @ [CHR 0x27] @ ''results'' @ [CHR 0x27] @ '')''"

text \<open>
  The \<^verbatim>\<open>try\<close> block covers the statements after the \<^verbatim>\<open>await\<close> too, so the
  \<^verbatim>\<open>catch\<close> branch is reached in three ways: the executor rejects, before any
  setter has run; \<^verbatim>\<open>data\<close> is \<^verbatim>\<open>null\<close> and reading \<^verbatim>\<open>data.results\<close>
  throws, after \<^verbatim>\<open>setSearchTime\<close> has run; the parent's
  \<^verbatim>\<open>onResultsChange\<close> throws, after all five setters have run. What the
  parent's callback does when it is called is the input \<open>cb\<close>: it returns
  (\<open>None\<close>) or throws a value.
\<close>

definition searchPublications_resume_cb ::
  "thrown option \<Rightarrow> pending_request \<Rightarrow> thrown + search_response option \<Rightarrow>
   controller \<Rightarrow> controller" where
  "searchPublications_resume_cb cb r answer st =
     (case answer of
        Inl err \<Rightarrow> catchBranch err st
      | Inr body \<Rightarrow>
          (let st1 = st\<lparr>searchTime := (of_nat (now st) - of_nat (req_start r)) / 1000\<rparr>
           in case body of
                None \<Rightarrow> catchBranch (ErrorObject nullReadMessage) st1
              | Some data \<Rightarrow>
                  (let st2 = st1\<lparr>results := resp_results data,
                                  totalPages := resp_total_pages data,
                                  totalResults := resp_total data,
                                  currentPage := resp_page data\<rparr>
                   in if hasOnResultsChange st then
                        (case cb of
                           None \<Rightarrow>
                             st2\<lparr>notified := notified st @ [resp_total data],
                                 loading := False\<rparr>
                         | Some e \<Rightarrow>
                             catchBranch e (st2\<lparr>notified := notified st @ [resp_total data]\<rparr>))
                      else st2\<lparr>loading := False\<rparr>)))"

text \<open>The search function resumes and the parent's callback, if called, returns.\<close>

definition searchPublications_resume ::
  "pending_request \<Rightarrow> thrown + search_response option \<Rightarrow> controller \<Rightarrow> controller" where
  "searchPublications_resume r answer st = searchPublications_resume_cb None r answer st"

text \<open>
  The network answers the request \<open>r\<close>: the request leaves the flight list and the
  search function resumes. An answer for a request that is not in flight changes
  nothing.
\<close>

definition resolve :: "pending_request \<Rightarrow> fetch_outcome \<Rightarrow> controller \<Rightarrow> controller" where
  "resolve r outcome st =
     (if r \<in> set (inflight st)
      then searchPublications_resume r (ApiService_searchPublications outcome)
             (st\<lparr>inflight := remove1 r (inflight st)\<rparr>)
      else st)"

subsection \<open>Effects after a render\<close>

text \<open>
  The effect on \<^verbatim>\<open>[debouncedQuery, searchPublications]\<close>:
  \<^verbatim>\<open>setCurrentPage(1); searchPublications(debouncedQuery, 1)\<close>.
\<close>

definition debouncedSearchEffect :: "controller \<Rightarrow> controller" where
  "debouncedSearchEffect st =
     searchPublications_call (debouncedQuery st) 1 (st\<lparr>currentPage := 1\<rparr>)"

text \<open>
  After an event handler has run, React renders and runs, in the order of their
  declaration, the effects whose dependencies changed: the debounce effect (its
  cleanup first) when \<^verbatim>\<open>query\<close> changed, the search effect when
  \<^verbatim>\<open>debouncedQuery\<close> changed. A setter called with the value the state already has
  schedules nothing. \<open>old\<close> is the state before the handler; the identity of
  \<^verbatim>\<open>searchPublications\<close> is taken to be stable.
\<close>

definition runEffects :: "controller \<Rightarrow> controller \<Rightarrow> controller" where
  "runEffects old st =
     (let st1 = (if query st \<noteq> query old then debounceEffect (debounceCleanup st) else st)
      in if debouncedQuery st1 \<noteq> debouncedQuery old then debouncedSearchEffect st1 else st1)"

subsection \<open>Event handlers\<close>

text \<open>The input's \<^verbatim>\<open>onChange\<close>: \<^verbatim>\<open>setQuery(e.target.value)\<close>.\<close>

definition onChange :: "string \<Rightarrow> controller \<Rightarrow> controller" where
  "onChange v st = runEffects st (st\<lparr>query := v\<rparr>)"

definition handleClearSearch :: "controller \<Rightarrow> controller" where
  "handleClearSearch st =
     (let st1 = (case debounceRef st of None \<Rightarrow> st | Some h \<Rightarrow> clearTimeout h st);
          st2 = st1\<lparr>query := [], debouncedQuery := [], currentPage := 1\<rparr>
      in runEffects st (searchPublications_call [] 1 st2))"

definition handleSearch :: "controller \<Rightarrow> controller" where
  "handleSearch st =
     runEffects st (searchPublications_call (query st) 1 (st\<lparr>currentPage := 1\<rparr>))"

definition handlePageChange :: "int \<Rightarrow> controller \<Rightarrow> controller" where
  "handlePageChange page st =
     runEffects st
       ((searchPublications_call (query st) page (st\<lparr>currentPage := page\<rparr>))
          \<lparr>scrolls := Suc (scrolls st)\<rparr>)"

definition handleQuickSearch :: "string \<Rightarrow> controller \<Rightarrow> controller" where
  "handleQuickSearch suggestion st =
     runEffects st
       (searchPublications_call suggestion 1 (st\<lparr>query := suggestion, currentPage := 1\<rparr>))"

text \<open>
  The buttons of \<^verbatim>\<open>Pagination\<close>, which is rendered when \<^verbatim>\<open>totalPages > 1\<close>.
  A button of the page list is disabled when its entry is not a number; Previous is
  disabled on page 1 and Next on the last page. A disabled button does nothing.
\<close>

definition pageButtonClick :: "page_entry \<Rightarrow> controller \<Rightarrow> controller" where
  "pageButtonClick page st = (case page of Num p \<Rightarrow> handlePageChange p st | Str s \<Rightarrow> st)"

definition previousButtonClick :: "controller \<Rightarrow> controller" where
  "previousButtonClick st =
     (if currentPage st = 1 then st else handlePageChange (currentPage st - 1) st)"

definition nextButtonClick :: "controller \<Rightarrow> controller" where
  "nextButtonClick st =
     (if currentPage st = totalPages st then st else handlePageChange (currentPage st + 1) st)"

subsection \<open>Time\<close>

text \<open>
  A timer's callback runs: \<^verbatim>\<open>setDebouncedQuery(query)\<close> with the query the callback
  closed over, then the effects of the render that follows.
\<close>

definition timerFires :: "timeout_entry \<Rightarrow> controller \<Rightarrow> controller" where
  "timerFires t st =
     (let st0 = st\<lparr>now := max (now st) (timer_due t),
                   timers := filter (\<lambda>u. timer_id u \<noteq> timer_id t) (timers st),
                   emitted := emitted st @ [timer_query t]\<rparr>
      in runEffects st0 (st0\<lparr>debouncedQuery := timer_query t\<rparr>))"

text \<open>
  \<open>d\<close> milliseconds pass with no other event: the timers that fall due fire, in the
  order they were armed (every timer has the same delay, so this is the order they are
  due), and the clock ends at \<open>now st + d\<close>. A callback arms no timer.
\<close>

definition advance :: "nat \<Rightarrow> controller \<Rightarrow> controller" where
  "advance d st =
     (foldl (\<lambda>s t. timerFires t s) st
        (filter (\<lambda>t. timer_due t \<le> now st + d) (timers st)))\<lparr>now := now st + d\<rparr>"

subsection \<open>Mounting\<close>

text \<open>
  The state the \<^verbatim>\<open>useState\<close> and \<^verbatim>\<open>useRef\<close> calls give, at time \<open>t0\<close> with the
  prop \<open>cb\<close>, and the three effects of the first render in the order of their
  declaration: the debounce effect, \<^verbatim>\<open>searchPublications("")\<close> (the page defaults
  to 1), and the search effect.
\<close>

definition initialState :: "nat \<Rightarrow> bool \<Rightarrow> controller" where
  "initialState t0 cb =
     \<lparr>query = [], debouncedQuery = [], results = [], loading = False, currentPage = 1,
      totalPages = 0, totalResults = 0, pageSize = 10, error = None, searchTime = 0,
      sortBy = ''relevance'', sortOrder = Desc, debounceRef = None,
      now = t0, timers = [], nextTimerId = 1, inflight = [], hasOnResultsChange = cb,
      emitted = [], issued = [], notified = [], scrolls = 0\<rparr>"

definition mount :: "controller \<Rightarrow> controller" where
  "mount st = debouncedSearchEffect (searchPublications_call [] 1 (debounceEffect st))"

text \<open>
  The states of the specification's state machine, read off the two flags the
  component renders from: the skeleton is shown while \<^verbatim>\<open>loading\<close>, the error box
  when \<^verbatim>\<open>error\<close> is truthy (a non-empty string).
\<close>

datatype phase = Loading | Failed | Ready

definition phase_of :: "controller \<Rightarrow> phase" where
  "phase_of st =
     (if loading st then Loading
      else (case error st of Some (c # cs) \<Rightarrow> Failed | _ \<Rightarrow> Ready))"

section \<open>The local sort\<close>

text \<open>
  A JavaScript number that may be NaN. Every comparison with NaN is false.
\<close>

datatype jsnum = NaN | Finite rat

fun num_gt :: "jsnum \<Rightarrow> jsnum \<Rightarrow> bool" where
  "num_gt (Finite a) (Finite b) = (a > b)"
| "num_gt _ _ = False"

fun num_lt :: "jsnum \<Rightarrow> jsnum \<Rightarrow> bool" where
  "num_lt (Finite a) (Finite b) = (a < b)"
| "num_lt _ _ = False"

text \<open>
  Strings compare by their code units, lexicographically. \<open>toLowerCase\<close> folds the
  letters A to Z; the characters of a HOL string are bytes, so letters beyond ASCII
  are left alone.
\<close>

fun str_lt :: "string \<Rightarrow> string \<Rightarrow> bool" where
  "str_lt [] [] = False"
| "str_lt [] (y # ys) = True"
| "str_lt (x # xs) [] = False"
| "str_lt (x # xs) (y # ys) =
     ((of_char x :: nat) < of_char y \<or> (x = y \<and> str_lt xs ys))"

definition str_gt :: "string \<Rightarrow> string \<Rightarrow> bool" where
  "str_gt a b = str_lt b a"

definition toLowerCase :: "string \<Rightarrow> string" where
  "toLowerCase s =
     map (\<lambda>c. if (65 :: nat) \<le> of_char c \<and> (of_char c :: nat) \<le> 90
               then char_of ((of_char c :: nat) + 32) else c) s"

text \<open>
  \<^verbatim>\<open>new Date(s).getTime()\<close>. Which strings the host's \<^verbatim>\<open>Date\<close> can read is up
  to the host, so its parser \<open>dateParse\<close> is a parameter (the time value in
  milliseconds, or \<open>None\<close> for an invalid date); the empty string is an invalid date
  on every host. The time value of an invalid date is NaN.
\<close>

definition getTime :: "(string \<Rightarrow> int option) \<Rightarrow> string \<Rightarrow> jsnum" where
  "getTime dateParse s =
     (if s = [] then NaN
      else (case dateParse s of None \<Rightarrow> NaN | Some t \<Rightarrow> Finite (of_int t)))"

text \<open>\<^verbatim>\<open>s || ""\<close> on a string.\<close>

definition orEmpty :: "string \<Rightarrow> string" where
  "orEmpty s = (if s = [] then [] else s)"

text \<open>
  The last statement of the comparator: \<^verbatim>\<open>aVal > bVal ? 1 : -1\<close> when ascending,
  \<^verbatim>\<open>aVal < bVal ? 1 : -1\<close> when descending.
\<close>

definition orderResult :: "sort_order \<Rightarrow> bool \<Rightarrow> bool \<Rightarrow> int" where
  "orderResult newSortOrder gt lt =
     (case newSortOrder of
        Asc \<Rightarrow> (if gt then 1 else - 1)
      | Desc \<Rightarrow> (if lt then 1 else - 1))"

text \<open>The comparator \<^verbatim>\<open>handleSortChange\<close> passes to \<^verbatim>\<open>sort\<close>.\<close>

definition compareFn ::
  "(string \<Rightarrow> int option) \<Rightarrow> string \<Rightarrow> sort_order \<Rightarrow> publication \<Rightarrow> publication \<Rightarrow> int" where
  "compareFn dateParse newSortBy newSortOrder a b =
     (if newSortBy = ''published_date'' then
        (let aVal = getTime dateParse (orEmpty (published_date a));
             bVal = getTime dateParse (orEmpty (published_date b))
         in orderResult newSortOrder (num_gt aVal bVal) (num_lt aVal bVal))
      else if newSortBy = ''title'' then
        (let aVal = toLowerCase (title a);
             bVal = toLowerCase (title b)
         in orderResult newSortOrder (str_gt aVal bVal) (str_lt aVal bVal))
      else
        (let aVal = Finite (score a);
             bVal = Finite (score b)
         in orderResult newSortOrder (num_gt aVal bVal) (num_lt aVal bVal)))"

text \<open>
  \<^verbatim>\<open>handleSortChange\<close>. \<^verbatim>\<open>Array.prototype.sort\<close> belongs to the host, so the
  sort \<open>hostSort\<close> is a parameter, like the date parser.
\<close>

definition handleSortChange ::
  "((publication \<Rightarrow> publication \<Rightarrow> int) \<Rightarrow> publication list \<Rightarrow> publication list) \<Rightarrow>
   (string \<Rightarrow> int option) \<Rightarrow> string \<Rightarrow> sort_order \<Rightarrow> controller \<Rightarrow> controller" where
  "handleSortChange hostSort dateParse newSortBy newSortOrder st =
     st\<lparr>sortBy := newSortBy,
        sortOrder := newSortOrder,
        results := hostSort (compareFn dateParse newSortBy newSortOrder) (results st)\<rparr>"

subsection \<open>The sort of V8\<close>

text \<open>
  \<^verbatim>\<open>Array.prototype.sort\<close> as V8 (Chrome, Node.js) runs it on an array of fewer
  than 64 elements, which a page of \<^verbatim>\<open>pageSize = 10\<close> results is: the run at the
  start of the array is counted and, when descending, reversed
  (\<^verbatim>\<open>CountAndMakeRun\<close>); the elements after it are inserted by binary search
  (\<^verbatim>\<open>BinaryInsertionSort\<close>). The comparator is called with the later element
  first. On a longer array V8 cuts the array into several such runs and merges them;
  the merge is not modelled.
\<close>

function bsearchInsertionPoint ::
  "('a \<Rightarrow> 'a \<Rightarrow> int) \<Rightarrow> 'a \<Rightarrow> 'a list \<Rightarrow> nat \<Rightarrow> nat \<Rightarrow> nat" where
  "bsearchInsertionPoint cmp pivot work left right =
     (if left < right then
        (let mid = left + (right - left) div 2 in
         if cmp pivot (work ! mid) < 0
         then bsearchInsertionPoint cmp pivot work left mid
         else bsearchInsertionPoint cmp pivot work (mid + 1) right)
      else left)"
  by pat_completeness auto
termination
  by (relation "measure (\<lambda>(cmp, pivot, work, left, right). right - left)") auto

declare bsearchInsertionPoint.simps [simp del]

text \<open>
  \<open>sortedPart\<close> is the part of the array before \<^verbatim>\<open>start\<close>, \<open>rest\<close> the part from
  \<^verbatim>\<open>start\<close> on.
\<close>

fun binaryInsertionSort :: "('a \<Rightarrow> 'a \<Rightarrow> int) \<Rightarrow> 'a list \<Rightarrow> 'a list \<Rightarrow> 'a list" where
  "binaryInsertionSort cmp sortedPart [] = sortedPart"
| "binaryInsertionSort cmp sortedPart (pivot # rest) =
     (let left = bsearchInsertionPoint cmp pivot sortedPart 0 (length sortedPart)
      in binaryInsertionSort cmp (take left sortedPart @ pivot # drop left sortedPart) rest)"

text \<open>
  How many of the elements after the first two continue the run: the loop of
  \<^verbatim>\<open>CountAndMakeRun\<close>, which stops at the first element that breaks the direction.
\<close>

fun runContinues :: "('a \<Rightarrow> 'a \<Rightarrow> int) \<Rightarrow> bool \<Rightarrow> 'a \<Rightarrow> 'a list \<Rightarrow> nat" where
  "runContinues cmp isDescending previousElement [] = 0"
| "runContinues cmp isDescending previousElement (currentElement # rest) =
     (let order = cmp currentElement previousElement in
      if isDescending then
        (if order \<ge> 0 then 0 else Suc (runContinues cmp isDescending currentElement rest))
      else
        (if order < 0 then 0 else Suc (runContinues cmp isDescending currentElement rest)))"

text \<open>The array after \<^verbatim>\<open>CountAndMakeRun\<close>, and the length of the run.\<close>

fun countAndMakeRun :: "('a \<Rightarrow> 'a \<Rightarrow> int) \<Rightarrow> 'a list \<Rightarrow> 'a list \<times> nat" where
  "countAndMakeRun cmp (elementHigh # elementLow # rest) =
     (let order = cmp elementLow elementHigh;
          isDescending = (order < 0);
          runLength = 2 + runContinues cmp isDescending elementLow rest;
          work = elementHigh # elementLow # rest
      in if isDescending then (rev (take runLength work) @ drop runLength work, runLength)
         else (work, runLength))"
| "countAndMakeRun cmp work = (work, length work)"

definition v8Sort :: "('a \<Rightarrow> 'a \<Rightarrow> int) \<Rightarrow> 'a list \<Rightarrow> 'a list" where
  "v8Sort cmp xs =
     (if length xs < 2 then xs
      else (let (work, runLength) = countAndMakeRun cmp xs
            in binaryInsertionSort cmp (take runLength work) (drop runLength work)))"

text \<open>
  A comparator agrees with a key when it answers a negative number exactly for the
  pairs whose first key is the smaller one; on a tie it answers 0 or more. The sort
  looks at nothing but the sign of the answer.
\<close>

definition agrees :: "('a \<Rightarrow> 'k::linorder) \<Rightarrow> ('a \<Rightarrow> 'a \<Rightarrow> int) \<Rightarrow> bool" where
  "agrees key cmp = (\<forall>x y. (cmp x y < 0) = (key x < key y))"

section \<open>The classification flow\<close>

text \<open>
  The text to classify is kept as its UTF-16 code units, because the white space
  \<^verbatim>\<open>trim\<close> strips (the WhiteSpace and LineTerminator code points of ECMAScript)
  goes beyond one byte.
\<close>

type_synonym utf16 = "nat list"

definition isWhiteSpace :: "nat \<Rightarrow> bool" where
  "isWhiteSpace c =
     (c \<in> {9, 10, 11, 12, 13, 32, 160, 5760, 8232, 8233, 8239, 8287, 12288, 65279}
      \<or> (8192 \<le> c \<and> c \<le> 8202))"

definition trim :: "utf16 \<Rightarrow> utf16" where
  "trim s = rev (dropWhile isWhiteSpace (rev (dropWhile isWhiteSpace s)))"

datatype model_type = Naive_bayes | Logistic_regression

text \<open>
  The state of \<^verbatim>\<open>DocumentClassification\<close>, its fields with the prefix \<open>c_\<close>. The
  types of the classification result and of the model information are declared in a
  file that is not among the sources; they are the parameters \<open>'r\<close> and \<open>'i\<close>.
\<close>

record ('r, 'i) classification_state =
  c_text :: utf16
  c_result :: "'r option"
  c_loading :: bool
  c_error :: "string option"
  c_modelType :: model_type
  c_modelInfo :: "'i option"

text \<open>
  \<^verbatim>\<open>handleClassify\<close> up to its \<^verbatim>\<open>await\<close>: the new state, and the request handed
  to \<^verbatim>\<open>ApiService.classifyText\<close>, if any. It resumes with the result or with an
  exception.
\<close>

definition handleClassify ::
  "('r, 'i) classification_state \<Rightarrow> ('r, 'i) classification_state \<times> (utf16 \<times> model_type) option" where
  "handleClassify st =
     (if trim (c_text st) = []
      then (st\<lparr>c_error := Some ''Please enter some text to classify''\<rparr>, None)
      else (st\<lparr>c_loading := True, c_error := None\<rparr>, Some (c_text st, c_modelType st)))"

definition handleClassify_resume ::
  "thrown + 'r \<Rightarrow> ('r, 'i) classification_state \<Rightarrow> ('r, 'i) classification_state" where
  "handleClassify_resume answer st =
     (case answer of
        Inr classificationResult \<Rightarrow> st\<lparr>c_result := Some classificationResult, c_loading := False\<rparr>
      | Inl err \<Rightarrow>
          st\<lparr>c_error := Some ''Failed to classify text. Please try again.'',
             c_loading := False\<rparr>)"

section \<open>Keystrokes, failures and the timer invariant\<close>

text \<open>
  A run of keystrokes: each one comes \<open>gap\<close> milliseconds after the event before it
  and leaves the text \<open>v\<close> in the input.
\<close>

fun typing :: "(nat \<times> string) list \<Rightarrow> controller \<Rightarrow> controller" where
  "typing [] st = st"
| "typing ((gap, v) # ks) st = typing ks (onChange v (advance gap st))"

text \<open>
  The input fires \<^verbatim>\<open>onChange\<close> only when its text changed, so each keystroke of
  a run leaves a text that differs from the one before it.
\<close>

fun each_changes :: "string \<Rightarrow> (nat \<times> string) list \<Rightarrow> bool" where
  "each_changes prev [] = True"
| "each_changes prev ((gap, v) # ks) = (v \<noteq> prev \<and> each_changes v ks)"

text \<open>
  The invariant of the debounce timer: at most one timer is pending, and the
  \<^verbatim>\<open>debounceRef\<close> holds its handle.
\<close>

definition timer_inv :: "controller \<Rightarrow> bool" where
  "timer_inv st =
     (case timers st of
        [] \<Rightarrow> True
      | [t] \<Rightarrow> debounceRef st = Some (timer_id t)
      | _ \<Rightarrow> False)"

text \<open>
  The state just after a keystroke that left the text \<open>v\<close>: one timer is pending, it
  is due a full delay from now and will commit \<open>v\<close>.
\<close>

definition armed :: "string \<Rightarrow> controller \<Rightarrow> bool" where
  "armed v st =
     (case timers st of
        [t] \<Rightarrow> timer_due t = now st + 4000 \<and> timer_query t = v
               \<and> debounceRef st = Some (timer_id t) \<and> query st = v
      | _ \<Rightarrow> False)"

text \<open>
  The failures of a search request: a transport failure, where the
  \<^verbatim>\<open>TypeError\<close> that \<^verbatim>\<open>fetch\<close> rejects with carries the runtime's message
  (non-empty on every runtime), or a response whose status is not 2xx.
\<close>

definition search_fails :: "fetch_outcome \<Rightarrow> bool" where
  "search_fails outcome =
     (case outcome of
        NetworkFailure m \<Rightarrow> m \<noteq> []
      | HttpResponse status body \<Rightarrow> \<not> response_ok status)"


section \<open>Example sessions\<close>

text \<open>
  A session that was mounted at time 0 and whose two initial requests were answered
  120 ms later with a first page of 23 results; then sessions that go on from there.
\<close>

definition examplePublications :: "publication list" where
  "examplePublications =
     [\<lparr>title = ''Deep learning'', link = ''https://example.org/1'', authors = [''A. Author''],
       published_date = ''11 Feb 2025'', abstract = ''On learning.'', score = 3 / 4\<rparr>,
      \<lparr>title = ''Shallow learning'', link = ''https://example.org/2'', authors = [],
       published_date = [], abstract = [], score = 1 / 2\<rparr>]"

definition exampleResponse :: search_response where
  "exampleResponse =
     \<lparr>resp_results = examplePublications, resp_total = 23, resp_page = 1, resp_size = 10,
      resp_total_pages = 3\<rparr>"

definition initialRequest :: pending_request where
  "initialRequest = \<lparr>req_query = [], req_page = 1, req_size = 10, req_start = 0\<rparr>"

definition exampleReady :: controller where
  "exampleReady =
     resolve initialRequest (HttpResponse 200 (Json exampleResponse))
       (resolve initialRequest (HttpResponse 200 (Json exampleResponse))
          (advance 120 (mount (initialState 0 False))))"

definition failingScenario :: controller where
  "failingScenario = handlePageChange 2 exampleReady"

definition pageTwoRequest :: pending_request where
  "pageTwoRequest = \<lparr>req_query = [], req_page = 2, req_size = 10, req_start = 120\<rparr>"

definition staleScenario :: controller where
  "staleScenario =
     advance 4000 (onChange ''new'' (advance 4000 (onChange ''old'' exampleReady)))"

definition oldRequest :: pending_request where
  "oldRequest = \<lparr>req_query = ''old'', req_page = 1, req_size = 10, req_start = 4120\<rparr>"

definition newRequest :: pending_request where
  "newRequest = \<lparr>req_query = ''new'', req_page = 1, req_size = 10, req_start = 8120\<rparr>"

definition oldResponse :: search_response where
  "oldResponse =
     \<lparr>resp_results = [hd examplePublications], resp_total = 1, resp_page = 1, resp_size = 10,
      resp_total_pages = 1\<rparr>"

definition blankInput :: "(unit, unit) classification_state" where
  "blankInput =
     \<lparr>c_text = [32, 9, 10, 160], c_result = None, c_loading = False, c_error = None,
      c_modelType = Naive_bayes, c_modelInfo = None\<rparr>"

section \<open>Pagination: proofs\<close>

lemma pushPages_upto: "pushPages i n acc = acc @ map Num [i..n]"
proof (induction i n acc rule: pushPages.induct)
  case (1 i n acc)
  show ?case
  proof (cases "i \<le> n")
    case True
    have "pushPages i n acc = pushPages (i + 1) n (acc @ [Num i])"
      using True by (simp add: pushPages.simps [of i n acc])
    also have "\<dots> = (acc @ [Num i]) @ map Num [i + 1..n]"
      using "1.IH" True by simp
    also have "\<dots> = acc @ map Num [i..n]"
      using True by (simp add: upto_rec1)
    finally show ?thesis .
  next
    case False
    then show ?thesis by (simp add: pushPages.simps [of i n acc])
  qed
qed

lemma getVisiblePages_refines: "getVisiblePages c t = visiblePages_spec c t"
  by (simp add: getVisiblePages_def visiblePages_spec_def pushPages_upto)

lemma length_visiblePages_spec: "length (visiblePages_spec c t) \<le> 7"
  by (auto simp: visiblePages_spec_def)

lemma ends_visiblePages_spec:
  assumes "1 \<le> t"
  shows "Num 1 \<in> set (visiblePages_spec c t)" and "Num t \<in> set (visiblePages_spec c t)"
  using assms by (auto simp: visiblePages_spec_def)

text \<open>
  Claim C3. For every pair \<open>(current, total)\<close> with \<open>1 \<le> current \<le> total\<close>, the
  pages shown are the ones the four-case algorithm of the specification gives: every
  page when \<open>total \<le> 7\<close>, the first five pages, an ellipsis and the last page when
  \<open>current \<le> 4\<close>, the first page, an ellipsis and the last five pages when
  \<open>current \<ge> total - 3\<close>, and otherwise the first page, the window around
  \<open>current\<close> between two ellipses, and the last page. The list has at most 7 entries
  and contains page 1 and page \<open>total\<close>. The result is a function of the two inputs
  alone.
\<close>

theorem getVisiblePages_four_cases:
  assumes "1 \<le> current" and "current \<le> tot"
  shows "getVisiblePages current tot = visiblePages_spec current tot
       \<and> length (getVisiblePages current tot) \<le> 7
       \<and> Num 1 \<in> set (getVisiblePages current tot)
       \<and> Num tot \<in> set (getVisiblePages current tot)"
proof -
  have t: "1 \<le> tot" using assms by linarith
  show ?thesis
    unfolding getVisiblePages_refines
    using length_visiblePages_spec ends_visiblePages_spec [OF t] by simp
qed

theorem getVisiblePages_four_cases_witness:
  "getVisiblePages 6 12 = [Num 1, ellipsis, Num 5, Num 6, Num 7, ellipsis, Num 12]
 \<and> getVisiblePages 6 12 = visiblePages_spec 6 12
 \<and> length (getVisiblePages 6 12) \<le> 7
 \<and> Num 1 \<in> set (getVisiblePages 6 12)
 \<and> Num 12 \<in> set (getVisiblePages 6 12)"
  using getVisiblePages_four_cases [of 6 12]
  by (simp add: visiblePages_spec_def)

section \<open>Unfolding the controller\<close>

lemmas handler_defs =
  onChange_def handleClearSearch_def handleSearch_def handlePageChange_def
  handleQuickSearch_def runEffects_def debounceEffect_def debounceCleanup_def
  debouncedSearchEffect_def searchPublications_call_def clearTimeout_def setTimeout_def

lemmas resume_defs =
  searchPublications_resume_def searchPublications_resume_cb_def catchBranch_def Let_def

lemmas resolve_defs =
  resolve_def resume_defs ApiService_searchPublications_def response_ok_def

lemmas time_defs = advance_def timerFires_def

lemma exampleReady_eval:
  "exampleReady =
    \<lparr>query = [], debouncedQuery = [], results = examplePublications, loading = False,
     currentPage = 1, totalPages = 3, totalResults = 23, pageSize = 10, error = None,
     searchTime = 3 / 25, sortBy = ''relevance'', sortOrder = Desc, debounceRef = Some 1,
     now = 120,
     timers = [\<lparr>timer_id = 1, timer_due = 4000, timer_query = []\<rparr>],
     nextTimerId = 2, inflight = [], hasOnResultsChange = False, emitted = [],
     issued = [([], 1, 10), ([], 1, 10)], notified = [], scrolls = 0\<rparr>"
  by (simp add: exampleReady_def initialRequest_def exampleResponse_def mount_def
      initialState_def handler_defs resolve_defs time_defs)

section \<open>Stale responses\<close>

lemma staleScenario_eval:
  "inflight staleScenario = [oldRequest, newRequest]
 \<and> query staleScenario = ''new''
 \<and> debouncedQuery staleScenario = ''new''
 \<and> issued staleScenario = issued exampleReady @ [(''old'', 1, 10), (''new'', 1, 10)]"
  by (simp add: staleScenario_def oldRequest_def newRequest_def exampleReady_eval
      handler_defs time_defs)

text \<open>
  Claim C1, as amended. The controller applies every response when it resolves and
  compares it with nothing: when two requests are in flight and the one issued later
  resolves first, its response is applied to \<^verbatim>\<open>results\<close>, \<^verbatim>\<open>totalResults\<close>,
  \<^verbatim>\<open>totalPages\<close> and \<^verbatim>\<open>currentPage\<close>, and the response of the earlier request,
  resolving afterwards, overwrites all four with its own values.
\<close>

theorem stale_response_overwrites:
  assumes "rNew \<in> set (inflight st)" and "rOld \<in> set (remove1 rNew (inflight st))"
  shows "(let sNew = resolve rNew (HttpResponse 200 (Json dNew)) st;
              sOld = resolve rOld (HttpResponse 200 (Json dOld)) sNew in
          results sNew = resp_results dNew \<and> totalResults sNew = resp_total dNew \<and>
          totalPages sNew = resp_total_pages dNew \<and> currentPage sNew = resp_page dNew \<and>
          results sOld = resp_results dOld \<and> totalResults sOld = resp_total dOld \<and>
          totalPages sOld = resp_total_pages dOld \<and> currentPage sOld = resp_page dOld)"
  using assms by (simp add: resolve_defs Let_def)

theorem stale_response_overwrites_witness:
  "newRequest \<in> set (inflight staleScenario)
 \<and> oldRequest \<in> set (remove1 newRequest (inflight staleScenario))
 \<and> results (resolve oldRequest (HttpResponse 200 (Json oldResponse))
            (resolve newRequest (HttpResponse 200 (Json exampleResponse)) staleScenario))
      = resp_results oldResponse"
proof -
  have a: "newRequest \<in> set (inflight staleScenario)"
    by (simp add: staleScenario_eval)
  have b: "oldRequest \<in> set (remove1 newRequest (inflight staleScenario))"
    by (simp add: staleScenario_eval oldRequest_def newRequest_def)
  show ?thesis
    using stale_response_overwrites [OF a b, of exampleResponse oldResponse] a b
    by (simp add: Let_def)
qed

text \<open>
  The claim as stated fails. The user types \<open>old\<close>, the debounce timer commits it and
  a request for \<open>(old, 1)\<close> is issued; the user types \<open>new\<close> and a request for
  \<open>(new, 1)\<close> is issued. The response for \<open>new\<close> arrives and is shown; then the
  response for \<open>old\<close> arrives, and the page shows the one result of \<open>old\<close> under
  the query \<open>new\<close>.
\<close>

theorem stale_response_counterexample:
  "issued staleScenario = issued exampleReady @ [(''old'', 1, 10), (''new'', 1, 10)]
 \<and> inflight staleScenario = [oldRequest, newRequest]
 \<and> results (resolve newRequest (HttpResponse 200 (Json exampleResponse)) staleScenario)
      = resp_results exampleResponse
 \<and> query (resolve oldRequest (HttpResponse 200 (Json oldResponse))
            (resolve newRequest (HttpResponse 200 (Json exampleResponse)) staleScenario)) = ''new''
 \<and> results (resolve oldRequest (HttpResponse 200 (Json oldResponse))
            (resolve newRequest (HttpResponse 200 (Json exampleResponse)) staleScenario))
      = resp_results oldResponse
 \<and> totalResults (resolve oldRequest (HttpResponse 200 (Json oldResponse))
            (resolve newRequest (HttpResponse 200 (Json exampleResponse)) staleScenario)) = 1
 \<and> resp_results oldResponse \<noteq> resp_results exampleResponse"
  by (simp add: staleScenario_eval resolve_defs oldRequest_def newRequest_def oldResponse_def
      exampleResponse_def examplePublications_def)

section \<open>The debounce timer\<close>

lemma timerFires_fields:
  "timers (timerFires t st) = filter (\<lambda>u. timer_id u \<noteq> timer_id t) (timers st)"
  "emitted (timerFires t st) = emitted st @ [timer_query t]"
  "query (timerFires t st) = query st"
  "debounceRef (timerFires t st) = debounceRef st"
  by (simp_all add: timerFires_def runEffects_def debouncedSearchEffect_def
      searchPublications_call_def Let_def)

lemma advance_no_timer:
  assumes "timers st = []"
  shows "advance d st = st\<lparr>now := now st + d\<rparr>"
  using assms by (simp add: advance_def)

lemma advance_not_due:
  assumes "timers st = [t]" and "now st + d < timer_due t"
  shows "advance d st = st\<lparr>now := now st + d\<rparr>"
  using assms by (simp add: advance_def)

lemma advance_due:
  assumes "timers st = [t]" and "timer_due t \<le> now st + d"
  shows "advance d st = (timerFires t st)\<lparr>now := now st + d\<rparr>"
  using assms by (simp add: advance_def)

lemma armed_timer_inv: "armed v st \<Longrightarrow> timer_inv st"
  by (auto simp: armed_def timer_inv_def split: list.splits)

lemma timer_inv_length: "timer_inv st \<Longrightarrow> length (timers st) \<le> 1"
  by (auto simp: timer_inv_def split: list.splits)

lemma timer_inv_advance:
  assumes "timer_inv st"
  shows "timer_inv (advance e st)"
proof (cases "timers st")
  case Nil
  then show ?thesis by (simp add: advance_no_timer timer_inv_def)
next
  case (Cons t ts)
  then have one: "timers st = [t]" and ref: "debounceRef st = Some (timer_id t)"
    using assms by (auto simp: timer_inv_def split: list.splits)
  show ?thesis
  proof (cases "timer_due t \<le> now st + e")
    case True
    then show ?thesis
      using one by (simp add: advance_due timer_inv_def timerFires_fields)
  next
    case False
    then show ?thesis
      using one ref by (simp add: advance_not_due timer_inv_def)
  qed
qed

lemma query_advance:
  assumes "timer_inv st"
  shows "query (advance e st) = query st"
proof (cases "timers st")
  case Nil
  then show ?thesis by (simp add: advance_no_timer)
next
  case (Cons t ts)
  then have one: "timers st = [t]"
    using assms by (auto simp: timer_inv_def split: list.splits)
  show ?thesis
    by (cases "timer_due t \<le> now st + e")
       (use one in \<open>simp_all add: advance_due advance_not_due timerFires_fields\<close>)
qed

lemma onChange_arms:
  assumes "timer_inv st" and "v \<noteq> query st"
  shows "armed v (onChange v st)" and "emitted (onChange v st) = emitted st"
  using assms
  by (auto simp: armed_def timer_inv_def onChange_def runEffects_def debounceEffect_def
      debounceCleanup_def clearTimeout_def setTimeout_def Let_def
      split: list.splits option.splits)

lemma timer_inv_onChange:
  assumes "timer_inv st"
  shows "timer_inv (onChange v st)"
proof (cases "v = query st")
  case True
  then show ?thesis
    using assms by (simp add: onChange_def runEffects_def timer_inv_def)
next
  case False
  then show ?thesis
    using assms onChange_arms(1) armed_timer_inv by blast
qed

lemma timer_inv_typing: "timer_inv st \<Longrightarrow> timer_inv (typing ks st)"
  by (induction ks arbitrary: st) (auto simp: timer_inv_advance timer_inv_onChange)

text \<open>
  The invariant holds when the component has mounted, and every other event keeps it:
  a search, a page change, a quick search, the clear action, a sort and an answer of
  the network.
\<close>

lemma timer_inv_mount: "timer_inv (mount (initialState t0 cb))"
  by (simp add: timer_inv_def mount_def initialState_def handler_defs)

lemma timer_inv_handlers:
  assumes "timer_inv st"
  shows "timer_inv (handleSearch st)"
    and "timer_inv (handlePageChange p st)"
    and "timer_inv (handleQuickSearch s st)"
    and "timer_inv (handleClearSearch st)"
    and "timer_inv (handleSortChange hostSort dateParse f ord st)"
    and "timer_inv (resolve r outcome st)"
  using assms
  by (auto simp: timer_inv_def handler_defs handleSortChange_def resolve_def
      resume_defs
      split: list.splits option.splits sum.splits)

lemma armed_gap:
  assumes "armed v st" and "g < 4000"
  shows "advance g st = st\<lparr>now := now st + g\<rparr>"
proof -
  obtain t where t: "timers st = [t]" "timer_due t = now st + 4000"
    using assms(1) by (auto simp: armed_def split: list.splits)
  then show ?thesis
    using assms(2) by (simp add: advance_not_due)
qed

lemma armed_step:
  assumes "armed v st" and "g < 4000" and "w \<noteq> v"
  shows "armed w (onChange w (advance g st))"
    and "emitted (onChange w (advance g st)) = emitted st"
proof -
  have a: "advance g st = st\<lparr>now := now st + g\<rparr>"
    using assms(1,2) by (rule armed_gap)
  have i: "timer_inv (advance g st)"
    using assms(1) armed_timer_inv timer_inv_advance by blast
  have q: "w \<noteq> query (advance g st)"
    using assms(1,3) a by (auto simp: armed_def split: list.splits)
  show "armed w (onChange w (advance g st))"
    using i q by (rule onChange_arms(1))
  have "emitted (onChange w (advance g st)) = emitted (advance g st)"
    using i q by (rule onChange_arms(2))
  then show "emitted (onChange w (advance g st)) = emitted st"
    by (simp add: a)
qed

lemma armed_typing:
  assumes "armed v st" and "\<forall>(g, w) \<in> set ks. g < 4000" and "each_changes v ks"
  shows "armed (snd (last ((g0, v) # ks))) (typing ks st)
       \<and> emitted (typing ks st) = emitted st"
  using assms
proof (induction ks arbitrary: v st g0)
  case Nil
  then show ?case by simp
next
  case (Cons k ks)
  obtain g w where k: "k = (g, w)" by (cases k)
  have g: "g < 4000" and w: "w \<noteq> v" and rest: "each_changes w ks"
    and gaps: "\<forall>(g, w) \<in> set ks. g < 4000"
    using Cons.prems k by auto
  have f: "armed w (onChange w (advance g st))"
    and e: "emitted (onChange w (advance g st)) = emitted st"
    using armed_step [OF Cons.prems(1) g w] by auto
  have "armed (snd (last ((g, w) # ks))) (typing ks (onChange w (advance g st)))
       \<and> emitted (typing ks (onChange w (advance g st))) = emitted (onChange w (advance g st))"
    using Cons.IH [OF f gaps rest] .
  then show ?case
    using e k by simp
qed

lemma armed_fires:
  assumes "armed v st" and "4000 \<le> d"
  shows "emitted (advance d st) = emitted st @ [v]" and "timers (advance d st) = []"
proof -
  obtain t where t: "timers st = [t]" "timer_due t = now st + 4000" "timer_query t = v"
    using assms(1) by (auto simp: armed_def split: list.splits)
  have a: "advance d st = (timerFires t st)\<lparr>now := now st + d\<rparr>"
    using t assms(2) by (simp add: advance_due)
  show "emitted (advance d st) = emitted st @ [v]"
    using t by (simp add: a timerFires_fields)
  show "timers (advance d st) = []"
    using t by (simp add: a timerFires_fields)
qed

lemma timer_inv_exampleReady: "timer_inv exampleReady"
  by (simp add: exampleReady_eval timer_inv_def)

lemma timerFires_commits:
  "debouncedQuery (timerFires t st) = timer_query t"
  "pageSize (timerFires t st) = pageSize st"
  "issued (timerFires t st) =
     (if timer_query t \<noteq> debouncedQuery st
      then issued st @ [(timer_query t, 1, pageSize st)] else issued st)"
  by (simp_all add: timerFires_def runEffects_def debouncedSearchEffect_def
      searchPublications_call_def Let_def)

lemma onChange_keeps:
  assumes "timer_inv st" and "v \<noteq> query st"
  shows "debouncedQuery (onChange v st) = debouncedQuery st"
    and "issued (onChange v st) = issued st"
    and "pageSize (onChange v st) = pageSize st"
  using assms
  by (auto simp: timer_inv_def onChange_def runEffects_def debounceEffect_def
      debounceCleanup_def clearTimeout_def setTimeout_def Let_def
      split: list.splits option.splits)

lemma armed_step_keeps:
  assumes "armed v st" and "g < 4000" and "w \<noteq> v"
  shows "debouncedQuery (onChange w (advance g st)) = debouncedQuery st"
    and "issued (onChange w (advance g st)) = issued st"
    and "pageSize (onChange w (advance g st)) = pageSize st"
proof -
  have a: "advance g st = st\<lparr>now := now st + g\<rparr>"
    using assms(1,2) by (rule armed_gap)
  have i: "timer_inv (advance g st)"
    using assms(1) armed_timer_inv timer_inv_advance by blast
  have q: "w \<noteq> query (advance g st)"
    using assms(1,3) a by (auto simp: armed_def split: list.splits)
  show "debouncedQuery (onChange w (advance g st)) = debouncedQuery st"
    using onChange_keeps(1) [OF i q] by (simp add: a)
  show "issued (onChange w (advance g st)) = issued st"
    using onChange_keeps(2) [OF i q] by (simp add: a)
  show "pageSize (onChange w (advance g st)) = pageSize st"
    using onChange_keeps(3) [OF i q] by (simp add: a)
qed

lemma armed_typing_keeps:
  assumes "armed v st" and "\<forall>(g, w) \<in> set ks. g < 4000" and "each_changes v ks"
  shows "debouncedQuery (typing ks st) = debouncedQuery st
       \<and> issued (typing ks st) = issued st
       \<and> pageSize (typing ks st) = pageSize st"
  using assms
proof (induction ks arbitrary: v st)
  case Nil
  then show ?case by simp
next
  case (Cons k ks)
  obtain g w where k: "k = (g, w)" by (cases k)
  have g: "g < 4000" and w: "w \<noteq> v" and rest: "each_changes w ks"
    and gaps: "\<forall>(g, w) \<in> set ks. g < 4000"
    using Cons.prems k by auto
  have f: "armed w (onChange w (advance g st))"
    using armed_step(1) [OF Cons.prems(1) g w] .
  have keep: "debouncedQuery (onChange w (advance g st)) = debouncedQuery st"
    "issued (onChange w (advance g st)) = issued st"
    "pageSize (onChange w (advance g st)) = pageSize st"
    using armed_step_keeps [OF Cons.prems(1) g w] by auto
  show ?case
    using Cons.IH [OF f gaps rest] keep k by simp
qed

lemma armed_fires_commits:
  assumes "armed v st" and "4000 \<le> d"
  shows "debouncedQuery (advance d st) = v"
    and "issued (advance d st) =
           (if v \<noteq> debouncedQuery st then issued st @ [(v, 1, pageSize st)] else issued st)"
proof -
  obtain t where t: "timers st = [t]" "timer_due t = now st + 4000" "timer_query t = v"
    using assms(1) by (auto simp: armed_def split: list.splits)
  have a: "advance d st = (timerFires t st)\<lparr>now := now st + d\<rparr>"
    using t assms(2) by (simp add: advance_due)
  show "debouncedQuery (advance d st) = v"
    using t by (simp add: a timerFires_commits)
  show "issued (advance d st) =
           (if v \<noteq> debouncedQuery st then issued st @ [(v, 1, pageSize st)] else issued st)"
    using t by (simp add: a timerFires_commits)
qed

text \<open>
  Claim C2. Take a state in which the timer invariant holds (the mounted component and
  every state it reaches) and a run of keystrokes, each changing the text and each but
  the first less than the debounce delay of 4000 ms after the one before. While the
  user types, the timer commits nothing: \<^verbatim>\<open>debouncedQuery\<close> keeps its value and
  no request is issued. Once the delay has passed after the last keystroke the timer
  has fired exactly once: \<^verbatim>\<open>debouncedQuery\<close> is the text of the last keystroke,
  and the one request its change triggers, for that text and page 1, has been issued.
  After every keystroke of the run, and however much time passes after it with no
  other event, at most one timer is pending: a keystroke clears the pending timer
  before it arms the next.
\<close>

theorem debounce_emits_last_keystroke:
  assumes "timer_inv st"
    and "each_changes (query st) ((gap, v) # ks)"
    and "\<forall>(g, w) \<in> set ks. g < 4000"
    and "4000 \<le> d"
  shows "emitted (advance d (typing ((gap, v) # ks) st))
           = emitted (advance gap st) @ [snd (last ((gap, v) # ks))]
       \<and> emitted (typing ((gap, v) # ks) st) = emitted (advance gap st)
       \<and> timers (advance d (typing ((gap, v) # ks) st)) = []
       \<and> (\<forall>k \<le> length ((gap, v) # ks). \<forall>e.
             length (timers (typing (take k ((gap, v) # ks)) st)) \<le> 1
           \<and> length (timers (advance e (typing (take k ((gap, v) # ks)) st))) \<le> 1)
       \<and> debouncedQuery (typing ((gap, v) # ks) st) = debouncedQuery (advance gap st)
       \<and> issued (typing ((gap, v) # ks) st) = issued (advance gap st)
       \<and> debouncedQuery (advance d (typing ((gap, v) # ks) st)) = snd (last ((gap, v) # ks))
       \<and> issued (advance d (typing ((gap, v) # ks) st))
           = (if snd (last ((gap, v) # ks)) \<noteq> debouncedQuery (advance gap st)
              then issued (advance gap st)
                     @ [(snd (last ((gap, v) # ks)), 1, pageSize (advance gap st))]
              else issued (advance gap st))"
proof -
  have i: "timer_inv (advance gap st)"
    using assms(1) by (rule timer_inv_advance)
  have q: "v \<noteq> query (advance gap st)"
    using assms(1,2) by (simp add: query_advance)
  have f: "armed v (onChange v (advance gap st))"
    and e: "emitted (onChange v (advance gap st)) = emitted (advance gap st)"
    using onChange_arms [OF i q] by auto
  have first: "debouncedQuery (onChange v (advance gap st)) = debouncedQuery (advance gap st)"
    "issued (onChange v (advance gap st)) = issued (advance gap st)"
    "pageSize (onChange v (advance gap st)) = pageSize (advance gap st)"
    using onChange_keeps [OF i q] by auto
  have rest: "each_changes v ks" using assms(2) by simp
  have t: "armed (snd (last ((gap, v) # ks))) (typing ks (onChange v (advance gap st)))
         \<and> emitted (typing ks (onChange v (advance gap st)))
             = emitted (onChange v (advance gap st))"
    using armed_typing [OF f assms(3) rest] .
  have fin: "armed (snd (last ((gap, v) # ks))) (typing ((gap, v) # ks) st)"
    and em: "emitted (typing ((gap, v) # ks) st) = emitted (advance gap st)"
    using t e by auto
  have keep: "debouncedQuery (typing ((gap, v) # ks) st) = debouncedQuery (advance gap st)"
    "issued (typing ((gap, v) # ks) st) = issued (advance gap st)"
    "pageSize (typing ((gap, v) # ks) st) = pageSize (advance gap st)"
    using armed_typing_keeps [OF f assms(3) rest] first by auto
  have one: "emitted (advance d (typing ((gap, v) # ks) st))
           = emitted (advance gap st) @ [snd (last ((gap, v) # ks))]"
    using armed_fires(1) [OF fin assms(4)] em by simp
  have none: "timers (advance d (typing ((gap, v) # ks) st)) = []"
    using armed_fires(2) [OF fin assms(4)] .
  have commit: "debouncedQuery (advance d (typing ((gap, v) # ks) st)) = snd (last ((gap, v) # ks))"
    using armed_fires_commits(1) [OF fin assms(4)] .
  have search: "issued (advance d (typing ((gap, v) # ks) st))
           = (if snd (last ((gap, v) # ks)) \<noteq> debouncedQuery (advance gap st)
              then issued (advance gap st)
                     @ [(snd (last ((gap, v) # ks)), 1, pageSize (advance gap st))]
              else issued (advance gap st))"
    using armed_fires_commits(2) [OF fin assms(4)] keep by simp
  have inv: "\<And>js. timer_inv (typing js st)"
    using assms(1) by (rule timer_inv_typing)
  have pending: "\<forall>k \<le> length ((gap, v) # ks). \<forall>e.
             length (timers (typing (take k ((gap, v) # ks)) st)) \<le> 1
           \<and> length (timers (advance e (typing (take k ((gap, v) # ks)) st))) \<le> 1"
    using inv timer_inv_advance timer_inv_length by blast
  show ?thesis
    using one em none pending keep(1,2) commit search by blast
qed

theorem debounce_emits_last_keystroke_witness:
  "timer_inv exampleReady
 \<and> each_changes (query exampleReady) [(500, ''m''), (150, ''ma''), (3999, ''mac'')]
 \<and> (150 :: nat) < 4000 \<and> (3999 :: nat) < 4000
 \<and> emitted (advance 500 exampleReady) = []
 \<and> emitted (typing [(500, ''m''), (150, ''ma''), (3999, ''mac'')] exampleReady) = []
 \<and> debouncedQuery (typing [(500, ''m''), (150, ''ma''), (3999, ''mac'')] exampleReady) = []
 \<and> issued (typing [(500, ''m''), (150, ''ma''), (3999, ''mac'')] exampleReady)
     = issued exampleReady
 \<and> emitted (advance 4000 (typing [(500, ''m''), (150, ''ma''), (3999, ''mac'')] exampleReady))
     = [''mac'']
 \<and> debouncedQuery (advance 4000 (typing [(500, ''m''), (150, ''ma''), (3999, ''mac'')] exampleReady))
     = ''mac''
 \<and> issued (advance 4000 (typing [(500, ''m''), (150, ''ma''), (3999, ''mac'')] exampleReady))
     = issued exampleReady @ [(''mac'', 1, 10)]
 \<and> timers (advance 4000 (typing [(500, ''m''), (150, ''ma''), (3999, ''mac'')] exampleReady)) = []"
proof -
  have c: "each_changes (query exampleReady) [(500, ''m''), (150, ''ma''), (3999, ''mac'')]"
    by (simp add: exampleReady_eval)
  have g: "\<forall>(g, w) \<in> set [(150 :: nat, ''ma''), (3999, ''mac'')]. g < 4000"
    by simp
  have s: "emitted (advance 500 exampleReady) = []" "debouncedQuery (advance 500 exampleReady) = []"
    "issued (advance 500 exampleReady) = issued exampleReady"
    "pageSize (advance 500 exampleReady) = 10"
    by (simp_all add: exampleReady_eval advance_def)
  show ?thesis
    using debounce_emits_last_keystroke [OF timer_inv_exampleReady c g, of 4000]
      timer_inv_exampleReady c s
    by simp
qed

section \<open>Page changes\<close>

text \<open>
  Claim C5, as amended. A page change whose target is the current page is handled like
  any other: it sets the loading flag, clears the error, issues a request for
  \<open>(query, page)\<close> and scrolls to the top; the other fields of the session state
  keep their values.
\<close>

theorem same_page_change_issues_request:
  "handlePageChange (currentPage st) st =
     st\<lparr>loading := True, error := None,
        inflight := inflight st @
          [\<lparr>req_query = query st, req_page = currentPage st, req_size = pageSize st,
            req_start = now st\<rparr>],
        issued := issued st @ [(query st, currentPage st, pageSize st)],
        scrolls := Suc (scrolls st)\<rparr>"
  by (simp add: handler_defs)

text \<open>
  The claim as stated fails. The example session is in \<open>Ready\<close> on page 1 of 3; the
  page list holds a button for page 1, which is not disabled. Clicking it takes the
  session to \<open>Loading\<close> and issues a third request for the first page.
\<close>

theorem same_page_change_counterexample:
  "phase_of exampleReady = Ready \<and> currentPage exampleReady = 1
 \<and> Num 1 \<in> set (getVisiblePages (currentPage exampleReady) (totalPages exampleReady))
 \<and> pageButtonClick (Num 1) exampleReady \<noteq> exampleReady
 \<and> phase_of (pageButtonClick (Num 1) exampleReady) = Loading
 \<and> issued (pageButtonClick (Num 1) exampleReady) = issued exampleReady @ [([], 1, 10)]"
  by (simp add: exampleReady_eval phase_of_def pageButtonClick_def handler_defs
      getVisiblePages_refines visiblePages_spec_def)

section \<open>Explicit submit\<close>

text \<open>
  Claim C6. The claim asks the submit action to cancel the pending debounce firing.
  \<^verbatim>\<open>handleSearch\<close> resets the page to 1 and issues the request for
  \<open>(query, 1)\<close> at once, but it leaves the host's timers as they are, for every
  state. In the
  example session the user types \<open>ml\<close> and submits one second later: the request for
  \<open>(ml, 1)\<close> is issued at once, the timer armed by the keystroke is still pending,
  and when it fires three seconds later a second request for \<open>(ml, 1)\<close> is issued.
\<close>

theorem submit_keeps_debounce_timer:
  "timers (handleSearch st) = timers st
 \<and> currentPage (handleSearch st) = 1
 \<and> issued (handleSearch st) = issued st @ [(query st, 1, pageSize st)]
 \<and> timers (advance 1000 (onChange ''ml'' exampleReady))
     = [\<lparr>timer_id = 2, timer_due = 4120, timer_query = ''ml''\<rparr>]
 \<and> timers (handleSearch (advance 1000 (onChange ''ml'' exampleReady)))
     = [\<lparr>timer_id = 2, timer_due = 4120, timer_query = ''ml''\<rparr>]
 \<and> issued (handleSearch (advance 1000 (onChange ''ml'' exampleReady)))
     = issued exampleReady @ [(''ml'', 1, 10)]
 \<and> issued (advance 3000 (handleSearch (advance 1000 (onChange ''ml'' exampleReady))))
     = issued exampleReady @ [(''ml'', 1, 10), (''ml'', 1, 10)]"
  by (simp add: exampleReady_eval handler_defs time_defs)

section \<open>Failed and successful requests\<close>

lemma ApiService_fails:
  assumes "search_fails outcome"
  shows "\<exists>m. ApiService_searchPublications outcome = Inl (ErrorObject m) \<and> m \<noteq> []"
  using assms
  by (cases outcome) (auto simp: search_fails_def ApiService_searchPublications_def)

text \<open>
  Claim C8. When a request in flight fails, by a transport failure or by a status
  that is not 2xx, the controller sets a non-empty error message, empties the results
  and is in \<open>Failed\<close>. When it succeeds, the controller sets no error: the error
  field keeps the value it had, which is \<open>None\<close> when the answer follows the call
  directly, and the results are the ones of the response.
\<close>

theorem failed_search_sets_error:
  assumes "r \<in> set (inflight st)"
  shows "(search_fails outcome \<longrightarrow>
            (case error (resolve r outcome st) of Some m \<Rightarrow> m \<noteq> [] | None \<Rightarrow> False)
          \<and> results (resolve r outcome st) = []
          \<and> phase_of (resolve r outcome st) = Failed)
       \<and> (response_ok status \<longrightarrow>
            error (resolve r (HttpResponse status (Json data)) st) = error st
          \<and> results (resolve r (HttpResponse status (Json data)) st) = resp_results data
          \<and> error (resolve
                \<lparr>req_query = q, req_page = p, req_size = pageSize st, req_start = now st\<rparr>
                (HttpResponse status (Json data)) (searchPublications_call q p st)) = None)"
proof (intro conjI impI)
  assume "search_fails outcome"
  then obtain m where m: "ApiService_searchPublications outcome = Inl (ErrorObject m)" "m \<noteq> []"
    using ApiService_fails by blast
  then obtain c cs where cs: "m = c # cs" by (cases m) auto
  show "case error (resolve r outcome st) of Some m \<Rightarrow> m \<noteq> [] | None \<Rightarrow> False"
    using assms m by (simp add: resolve_def resume_defs)
  show "results (resolve r outcome st) = []"
    using assms m by (simp add: resolve_def resume_defs)
  show "phase_of (resolve r outcome st) = Failed"
    using assms m cs by (simp add: resolve_def resume_defs phase_of_def)
next
  assume "response_ok status"
  then show "error (resolve r (HttpResponse status (Json data)) st) = error st"
    using assms
    by (simp add: resolve_def resume_defs ApiService_searchPublications_def)
next
  assume "response_ok status"
  then show "results (resolve r (HttpResponse status (Json data)) st) = resp_results data"
    using assms
    by (simp add: resolve_def resume_defs ApiService_searchPublications_def)
next
  assume "response_ok status"
  then show "error (resolve
                \<lparr>req_query = q, req_page = p, req_size = pageSize st, req_start = now st\<rparr>
                (HttpResponse status (Json data)) (searchPublications_call q p st)) = None"
    by (simp add: resolve_def resume_defs ApiService_searchPublications_def
        searchPublications_call_def)
qed

theorem failed_search_sets_error_witness:
  "pageTwoRequest \<in> set (inflight failingScenario)
 \<and> search_fails (HttpResponse 503 (NotJson ''Service Unavailable''))
 \<and> error (resolve pageTwoRequest (HttpResponse 503 (NotJson ''Service Unavailable'')) failingScenario)
      = Some ''HTTP error! status: 503''
 \<and> results (resolve pageTwoRequest (HttpResponse 503 (NotJson ''Service Unavailable'')) failingScenario) = []
 \<and> phase_of (resolve pageTwoRequest (HttpResponse 503 (NotJson ''Service Unavailable'')) failingScenario) = Failed
 \<and> response_ok 200
 \<and> error (resolve pageTwoRequest (HttpResponse 200 (Json exampleResponse)) failingScenario) = None"
proof -
  have i: "pageTwoRequest \<in> set (inflight failingScenario)"
    by (simp add: failingScenario_def pageTwoRequest_def exampleReady_eval handler_defs)
  have f: "search_fails (HttpResponse 503 (NotJson ''Service Unavailable''))"
    by (simp add: search_fails_def response_ok_def)
  have k: "response_ok 200" by (simp add: response_ok_def)
  have e: "error failingScenario = None"
    by (simp add: failingScenario_def exampleReady_eval handler_defs)
  have s: "showNat 503 = ''503''" by code_simp
  have m: "error (resolve pageTwoRequest (HttpResponse 503 (NotJson ''Service Unavailable'')) failingScenario)
      = Some ''HTTP error! status: 503''"
    using i s by (simp add: resolve_defs)
  show ?thesis
    using failed_search_sets_error [OF i, of "HttpResponse 503 (NotJson ''Service Unavailable'')" 200 exampleResponse]
      i f k e m by simp
qed


lemma catchBranch_frame:
  "totalResults (catchBranch err st) = totalResults st"
  "totalPages (catchBranch err st) = totalPages st"
  "currentPage (catchBranch err st) = currentPage st"
  "query (catchBranch err st) = query st"
  "debouncedQuery (catchBranch err st) = debouncedQuery st"
  "sortBy (catchBranch err st) = sortBy st"
  "sortOrder (catchBranch err st) = sortOrder st"
  "searchTime (catchBranch err st) = searchTime st"
  "results (catchBranch err st) = []"
  "error (catchBranch err st) \<noteq> None"
  "\<not> loading (catchBranch err st)"
  by (simp_all add: catchBranch_def)






section \<open>The classification guard\<close>

lemma all_dropWhile: "(\<forall>x\<in>set (dropWhile P s). P x) \<longleftrightarrow> (\<forall>x\<in>set s. P x)"
  by (induction s) auto

lemma trim_empty_iff: "trim s = [] \<longleftrightarrow> list_all isWhiteSpace s"
  by (simp add: trim_def list_all_iff all_dropWhile)

text \<open>
  Claim C9. When the text is empty after trimming, which is when it is empty or all
  white space, the classify action sets the validation message, changes nothing else
  and hands no request to the network. A request is handed over exactly when the
  trimmed text is non-empty; it carries the text as typed and the model chosen.
\<close>

theorem classify_validation:
  "(trim (c_text st) = [] \<longrightarrow>
      handleClassify st = (st\<lparr>c_error := Some ''Please enter some text to classify''\<rparr>, None))
 \<and> (trim (c_text st) \<noteq> [] \<longrightarrow>
      handleClassify st =
        (st\<lparr>c_loading := True, c_error := None\<rparr>, Some (c_text st, c_modelType st)))
 \<and> (snd (handleClassify st) \<noteq> None \<longleftrightarrow> trim (c_text st) \<noteq> [])
 \<and> (trim (c_text st) = [] \<longleftrightarrow> list_all isWhiteSpace (c_text st))"
  by (simp add: handleClassify_def trim_empty_iff)

theorem classify_validation_witness:
  "trim (c_text blankInput) = []
 \<and> handleClassify blankInput =
     (blankInput\<lparr>c_error := Some ''Please enter some text to classify''\<rparr>, None)
 \<and> trim (c_text (blankInput\<lparr>c_text := [32, 104, 105]\<rparr>)) \<noteq> []
 \<and> snd (handleClassify (blankInput\<lparr>c_text := [32, 104, 105]\<rparr>))
     = Some ([32, 104, 105], Naive_bayes)"
proof -
  have a: "trim (c_text blankInput) = []"
    by (simp add: blankInput_def trim_def isWhiteSpace_def)
  have b: "trim (c_text (blankInput\<lparr>c_text := [32, 104, 105]\<rparr>)) \<noteq> []"
    by (simp add: trim_def isWhiteSpace_def)
  show ?thesis
    using classify_validation [of blankInput]
      classify_validation [of "blankInput\<lparr>c_text := [32, 104, 105]\<rparr>"] a b
    by (simp add: blankInput_def)
qed

section \<open>The sort of V8 is a stable sort\<close>

text \<open>
  For a comparator that agrees with a key, the sort modelled above returns what the
  stable insertion sort of the library returns: the elements in the order of their
  keys, ties in their original order. Sorting a second time then changes nothing.
\<close>

lemma bsearch_bounds:
  assumes "agrees key cmp" and "sorted (map key s)"
    and "left \<le> right" and "right \<le> length s"
    and "\<forall>i<left. key (s ! i) \<le> key p"
    and "\<forall>i. right \<le> i \<and> i < length s \<longrightarrow> key p < key (s ! i)"
  shows "left \<le> bsearchInsertionPoint cmp p s left right
       \<and> bsearchInsertionPoint cmp p s left right \<le> right
       \<and> (\<forall>i<bsearchInsertionPoint cmp p s left right. key (s ! i) \<le> key p)
       \<and> (\<forall>i. bsearchInsertionPoint cmp p s left right \<le> i \<and> i < length s
              \<longrightarrow> key p < key (s ! i))"
  using assms
proof (induction cmp p s left right rule: bsearchInsertionPoint.induct)
  case (1 cmp pivot work left right)
  show ?case
  proof (cases "left < right")
    case False
    then have "bsearchInsertionPoint cmp pivot work left right = left"
      by (simp add: bsearchInsertionPoint.simps [of cmp pivot work left right])
    then show ?thesis using "1.prems" False by auto
  next
    case True
    define mid where "mid = left + (right - left) div 2"
    have mid: "left \<le> mid" "mid < right" using True by (auto simp: mid_def)
    have midlen: "mid < length work" using mid "1.prems"(4) by simp
    show ?thesis
    proof (cases "cmp pivot (work ! mid) < 0")
      case lt: True
      then have k: "key pivot < key (work ! mid)"
        using "1.prems"(1) by (simp add: agrees_def)
      have eq: "bsearchInsertionPoint cmp pivot work left right
                = bsearchInsertionPoint cmp pivot work left mid"
        using True lt by (simp add: bsearchInsertionPoint.simps [of cmp pivot work left right] mid_def Let_def)
      have above: "\<forall>i. mid \<le> i \<and> i < length work \<longrightarrow> key pivot < key (work ! i)"
      proof (intro allI impI)
        fix i assume i: "mid \<le> i \<and> i < length work"
        have "key (work ! mid) \<le> key (work ! i)"
          using "1.prems"(2) i sorted_nth_mono [of "map key work" mid i] by simp
        then show "key pivot < key (work ! i)" using k by simp
      qed
      have "left \<le> bsearchInsertionPoint cmp pivot work left mid
       \<and> bsearchInsertionPoint cmp pivot work left mid \<le> mid
       \<and> (\<forall>i<bsearchInsertionPoint cmp pivot work left mid. key (work ! i) \<le> key pivot)
       \<and> (\<forall>i. bsearchInsertionPoint cmp pivot work left mid \<le> i \<and> i < length work
              \<longrightarrow> key pivot < key (work ! i))"
        using "1.IH"(1) [OF True mid_def lt "1.prems"(1,2) mid(1) _ "1.prems"(5) above] midlen
        by simp
      then show ?thesis using eq mid by auto
    next
      case ge: False
      have "\<not> key pivot < key (work ! mid)"
        using ge "1.prems"(1) unfolding agrees_def by blast
      then have k: "key (work ! mid) \<le> key pivot"
        by simp
      have eq: "bsearchInsertionPoint cmp pivot work left right
                = bsearchInsertionPoint cmp pivot work (mid + 1) right"
        using True ge by (simp add: bsearchInsertionPoint.simps [of cmp pivot work left right] mid_def Let_def)
      have below: "\<forall>i<mid + 1. key (work ! i) \<le> key pivot"
      proof (intro allI impI)
        fix i assume i: "i < mid + 1"
        have "key (work ! i) \<le> key (work ! mid)"
          using "1.prems"(2) i midlen sorted_nth_mono [of "map key work" i mid] by simp
        then show "key (work ! i) \<le> key pivot" using k by simp
      qed
      have "mid + 1 \<le> bsearchInsertionPoint cmp pivot work (mid + 1) right
       \<and> bsearchInsertionPoint cmp pivot work (mid + 1) right \<le> right
       \<and> (\<forall>i<bsearchInsertionPoint cmp pivot work (mid + 1) right. key (work ! i) \<le> key pivot)
       \<and> (\<forall>i. bsearchInsertionPoint cmp pivot work (mid + 1) right \<le> i \<and> i < length work
              \<longrightarrow> key pivot < key (work ! i))"
        using "1.IH"(2) [OF True mid_def ge "1.prems"(1,2) _ "1.prems"(4) below "1.prems"(6)] mid
        by simp
      then show ?thesis using eq mid by auto
    qed
  qed
qed

lemma insert_at_upper_bound:
  fixes key :: "'a \<Rightarrow> 'k::linorder"
  assumes s: "s = sort_key key xs" and r: "r \<le> length s"
    and lo: "\<forall>i<r. key (s ! i) \<le> key p"
    and hi: "\<forall>i. r \<le> i \<and> i < length s \<longrightarrow> key p < key (s ! i)"
  shows "take r s @ p # drop r s = sort_key key (xs @ [p])"
proof -
  have srt: "sorted (map key s)" by (simp add: s)
  have tk: "\<forall>x \<in> set (take r s). key x \<le> key p"
    using lo r by (auto simp: in_set_conv_nth)
  have dr: "\<forall>x \<in> set (drop r s). key p < key x"
    using hi r by (auto simp: in_set_conv_nth)
  have st: "sorted (map key (take r s))" "sorted (map key (drop r s))"
    using srt by (simp_all add: sorted_wrt_take sorted_wrt_drop sorted_map)
  have sorted': "sorted (map key (take r s @ p # drop r s))"
    using st tk dr by (fastforce simp: sorted_append)
  have ms: "mset (take r s @ p # drop r s) = mset (xs @ [p])"
  proof -
    have "mset (take r s) + mset (drop r s) = mset s"
      by (metis append_take_drop_id mset_append)
    then show ?thesis by (simp add: s)
  qed
  have fl: "filter (\<lambda>x. key k = key x) (take r s @ p # drop r s)
          = filter (\<lambda>x. key k = key x) (xs @ [p])" for k
  proof -
    have stable: "filter (\<lambda>x. key k = key x) s = filter (\<lambda>x. key k = key x) xs"
      using sort_key_stable [of key "key k" xs] by (simp add: s eq_commute)
    have split: "filter (\<lambda>x. key k = key x) (take r s) @ filter (\<lambda>x. key k = key x) (drop r s)
               = filter (\<lambda>x. key k = key x) s"
      by (metis append_take_drop_id filter_append)
    show ?thesis
    proof (cases "key k = key p")
      case True
      have "filter (\<lambda>x. key k = key x) (drop r s) = []"
        using dr True by (auto simp: filter_empty_conv)
      then show ?thesis using True split stable by simp
    next
      case False
      then show ?thesis using split stable by simp
    qed
  qed
  show ?thesis
    using properties_for_sort_key [OF ms _ sorted'] fl by metis
qed


lemma binaryInsertionSort_sort_key:
  fixes key :: "'a \<Rightarrow> 'k::linorder"
  assumes "agrees key cmp"
  shows "binaryInsertionSort cmp (sort_key key xs) rest = sort_key key (xs @ rest)"
proof (induction rest arbitrary: xs)
  case Nil
  show ?case by simp
next
  case (Cons p rest)
  define s where "s = sort_key key xs"
  define r where "r = bsearchInsertionPoint cmp p s 0 (length s)"
  have b: "0 \<le> r \<and> r \<le> length s \<and> (\<forall>i<r. key (s ! i) \<le> key p)
         \<and> (\<forall>i. r \<le> i \<and> i < length s \<longrightarrow> key p < key (s ! i))"
    unfolding r_def
    by (rule bsearch_bounds [OF assms]) (auto simp: s_def)
  have ins: "take r s @ p # drop r s = sort_key key (xs @ [p])"
    using insert_at_upper_bound [OF s_def] b by blast
  have "binaryInsertionSort cmp (sort_key key xs) (p # rest)
        = binaryInsertionSort cmp (take r s @ p # drop r s) rest"
    by (simp add: s_def r_def Let_def)
  also have "\<dots> = sort_key key ((xs @ [p]) @ rest)"
    unfolding ins by (rule Cons.IH)
  finally show ?case by simp
qed

lemma runContinues_le: "runContinues cmp d prev rest \<le> length rest"
  by (induction rest arbitrary: prev) (auto simp: Let_def)

lemma runContinues_ascending:
  fixes key :: "'a \<Rightarrow> 'k::linorder"
  assumes "agrees key cmp"
  shows "sorted (map key (prev # take (runContinues cmp False prev rest) rest))"
proof (induction rest arbitrary: prev)
  case Nil
  show ?case by simp
next
  case (Cons cur rest)
  show ?case
  proof (cases "cmp cur prev < 0")
    case True
    then show ?thesis by (simp add: Let_def)
  next
    case False
    then have "\<not> key cur < key prev"
      using assms unfolding agrees_def by blast
    then have k: "key prev \<le> key cur" by simp
    have ih: "sorted (map key (cur # take (runContinues cmp False cur rest) rest))"
      by (rule Cons.IH)
    have "\<forall>y \<in> set (take (runContinues cmp False cur rest) rest). key cur \<le> key y"
      using ih by auto
    then have "\<forall>y \<in> set (take (runContinues cmp False cur rest) rest). key prev \<le> key y"
      using k by auto
    then show ?thesis
      using False k ih by (simp add: Let_def)
  qed
qed

lemma runContinues_descending:
  fixes key :: "'a \<Rightarrow> 'k::linorder"
  assumes "agrees key cmp"
  shows "sorted_wrt (>) (map key (prev # take (runContinues cmp True prev rest) rest))"
proof (induction rest arbitrary: prev)
  case Nil
  show ?case by simp
next
  case (Cons cur rest)
  show ?case
  proof (cases "cmp cur prev \<ge> 0")
    case True
    then show ?thesis by (simp add: Let_def)
  next
    case False
    then have k: "key cur < key prev"
      using assms unfolding agrees_def by (simp add: not_le)
    have ih: "sorted_wrt (>) (map key (cur # take (runContinues cmp True cur rest) rest))"
      by (rule Cons.IH)
    have "\<forall>y \<in> set (take (runContinues cmp True cur rest) rest). key y < key cur"
      using ih by auto
    then have "\<forall>y \<in> set (take (runContinues cmp True cur rest) rest). key y < key prev"
      using k by auto
    then show ?thesis
      using False k ih by (simp add: Let_def)
  qed
qed

lemma descending_run_reversed:
  fixes key :: "'a \<Rightarrow> 'k::linorder"
  assumes "sorted_wrt (>) (map key run)"
  shows "sort_key key run = rev run"
proof -
  have "sorted_wrt (<) (rev (map key run))"
    using assms by (simp add: sorted_wrt_rev)
  then have st: "sorted_wrt (<) (map key (rev run))"
    by (simp add: rev_map)
  then have "sorted (map key (rev run))" and d: "distinct (map key (rev run))"
    using strict_sorted_iff by blast+
  moreover have "inj_on key (set run)"
    using d by (simp add: distinct_map)
  moreover have "mset run = mset (rev run)" by simp
  ultimately show ?thesis
    by (metis sort_key_inj_key_eq)
qed

lemma countAndMakeRun_sort_key:
  fixes key :: "'a \<Rightarrow> 'k::linorder"
  assumes "agrees key cmp" and "countAndMakeRun cmp xs = (work, n)"
  shows "n \<le> length xs \<and> take n work = sort_key key (take n xs) \<and> drop n work = drop n xs"
proof (cases "(cmp, xs)" rule: countAndMakeRun.cases)
  case (1 c a b rest)
  then have xs: "xs = a # b # rest" by simp
  define d where "d = (cmp b a < 0)"
  define m where "m = runContinues cmp d b rest"
  have m: "m \<le> length rest" unfolding m_def by (rule runContinues_le)
  have n: "n = 2 + m"
    using assms(2) by (auto simp: xs Let_def d_def m_def split: if_splits)
  have run: "take n xs = a # b # take m rest"
    by (simp add: xs n)
  show ?thesis
  proof (cases d)
    case True
    then have w: "work = rev (take n xs) @ drop n xs"
      using assms(2) by (auto simp: xs Let_def d_def m_def n split: if_splits)
    have k: "key b < key a"
      using True assms(1) unfolding d_def agrees_def by blast
    have ch: "sorted_wrt (>) (map key (b # take m rest))"
      using runContinues_descending [OF assms(1), of b rest] True by (simp add: m_def)
    then have "\<forall>y \<in> set (take m rest). key y < key b" by auto
    then have "\<forall>y \<in> set (take m rest). key y < key a" using k by auto
    then have "sorted_wrt (>) (map key (take n xs))"
      using ch k by (simp add: run)
    then have "sort_key key (take n xs) = rev (take n xs)"
      by (rule descending_run_reversed)
    moreover have "length (rev (take n xs)) = n" using m by (simp add: xs n)
    ultimately show ?thesis
      using m by (simp add: w xs n)
  next
    case False
    then have w: "work = xs"
      using assms(2) by (auto simp: xs Let_def d_def m_def n split: if_splits)
    have "\<not> key b < key a"
      using False assms(1) unfolding d_def agrees_def by blast
    then have k: "key a \<le> key b" by simp
    have ch: "sorted (map key (b # take m rest))"
      using runContinues_ascending [OF assms(1), of b rest] False by (simp add: m_def)
    then have "\<forall>y \<in> set (take m rest). key b \<le> key y" by auto
    then have "\<forall>y \<in> set (take m rest). key a \<le> key y" using k by auto
    then have "sorted (map key (take n xs))"
      using ch k by (simp add: run)
    then have "sort_key key (take n xs) = take n xs"
      by (rule sort_key_id_if_sorted)
    then show ?thesis
      using m by (simp add: w xs n)
  qed
qed (use assms(2) in auto)

lemma v8Sort_stable_sort:
  fixes key :: "'a \<Rightarrow> 'k::linorder"
  assumes "agrees key cmp"
  shows "v8Sort cmp xs = sort_key key xs"
proof (cases "length xs < 2")
  case True
  then have "sorted (map key xs)"
    by (cases "(cmp, xs)" rule: countAndMakeRun.cases) auto
  then show ?thesis
    using True by (simp add: v8Sort_def sort_key_id_if_sorted)
next
  case False
  obtain work n where c: "countAndMakeRun cmp xs = (work, n)"
    by (cases "countAndMakeRun cmp xs")
  have p: "take n work = sort_key key (take n xs)" "drop n work = drop n xs"
    using countAndMakeRun_sort_key [OF assms c] by auto
  have "v8Sort cmp xs = binaryInsertionSort cmp (take n work) (drop n work)"
    using False c by (simp add: v8Sort_def)
  also have "\<dots> = sort_key key (take n xs @ drop n xs)"
    unfolding p by (rule binaryInsertionSort_sort_key [OF assms])
  finally show ?thesis by simp
qed

lemma v8Sort_idempotent:
  fixes key :: "'a \<Rightarrow> 'k::linorder"
  assumes "agrees key cmp"
  shows "v8Sort cmp (v8Sort cmp xs) = v8Sort cmp xs"
  by (simp add: v8Sort_stable_sort [OF assms] sort_key_id_if_sorted)

text \<open>
  The comparator of \<^verbatim>\<open>handleSortChange\<close> agrees with no key: set against itself,
  a publication is answered \<open>-1\<close>.
\<close>

lemma compareFn_self: "compareFn dp f ord a a = - 1"
proof -
  have n: "\<not> num_gt x x" "\<not> num_lt x x" for x
    by (cases x; simp)+
  have s: "\<not> str_lt x x" for x
    by (induction x) auto
  show ?thesis
    by (cases ord; simp add: compareFn_def orderResult_def Let_def n s str_gt_def)
qed

lemma compareFn_agrees_with_no_key: "\<not> agrees key (compareFn dp f ord)"
proof
  assume "agrees key (compareFn dp f ord)"
  then have "(compareFn dp f ord a a < 0) = (key a < key a)" for a
    unfolding agrees_def by blast
  then show False
    by (simp add: compareFn_self)
qed

section \<open>Sorting with ties and with missing dates\<close>

lemma compareFn_tie:
  "compareFn dp ''relevance'' ord a (b\<lparr>score := score a\<rparr>) = - 1"
  "compareFn dp ''relevance'' ord (b\<lparr>score := score a\<rparr>) a = - 1"
  by (cases ord; simp add: compareFn_def orderResult_def)+

lemma compareFn_no_date:
  "compareFn dp ''published_date'' ord (a\<lparr>published_date := []\<rparr>) b = - 1"
  "compareFn dp ''published_date'' ord b (a\<lparr>published_date := []\<rparr>) = - 1"
  by (cases ord; simp add: compareFn_def orderResult_def getTime_def orEmpty_def)+

lemma v8Sort_pair:
  "v8Sort cmp [x, y] = (if cmp y x < 0 then [y, x] else [x, y])"
  by (simp add: v8Sort_def Let_def)

text \<open>
  Claim C4. The claim asks that publications with equal keys keep their order and that
  sorting a sorted list returns it unchanged. The sort of V8 does both for a comparator
  that agrees with a key (\<open>v8Sort_stable_sort\<close>, \<open>v8Sort_idempotent\<close>), but the
  comparator of \<^verbatim>\<open>handleSortChange\<close> never answers 0: for two publications with
  the same score it answers \<open>-1\<close> whichever comes first, in both directions. A
  page of two publications with the same score comes back reversed, and sorting it
  again by the same field and direction reverses it once more.
\<close>

theorem sort_reverses_ties:
  "compareFn dp ''relevance'' ord a (b\<lparr>score := score a\<rparr>) = - 1
 \<and> compareFn dp ''relevance'' ord (b\<lparr>score := score a\<rparr>) a = - 1
 \<and> results (handleSortChange v8Sort dp ''relevance'' ord
       (st\<lparr>results := [a, b\<lparr>score := score a\<rparr>]\<rparr>))
     = [b\<lparr>score := score a\<rparr>, a]
 \<and> results (handleSortChange v8Sort dp ''relevance'' ord
       (handleSortChange v8Sort dp ''relevance'' ord
          (st\<lparr>results := [a, b\<lparr>score := score a\<rparr>]\<rparr>)))
     = [a, b\<lparr>score := score a\<rparr>]"
  by (simp add: handleSortChange_def v8Sort_pair compareFn_tie)

text \<open>
  Claim C7. The claim asks that a publication with an empty or unreadable date sorts as
  if its time were the epoch: first when ascending, last when descending. Its key is
  NaN, not 0, and every comparison with NaN is false: set against any publication,
  before or after it, in either direction, the comparator answers \<open>-1\<close>. With the
  sort of V8 an undated publication that stands first moves last under ascending
  order, and one that stands last moves first under descending order, whatever the
  date of the other publication.
\<close>

theorem undated_not_smallest:
  "getTime dp (orEmpty (published_date (a\<lparr>published_date := []\<rparr>))) = NaN
 \<and> compareFn dp ''published_date'' ord (a\<lparr>published_date := []\<rparr>) b = - 1
 \<and> compareFn dp ''published_date'' ord b (a\<lparr>published_date := []\<rparr>) = - 1
 \<and> results (handleSortChange v8Sort dp ''published_date'' Asc
       (st\<lparr>results := [a\<lparr>published_date := []\<rparr>, b]\<rparr>)) = [b, a\<lparr>published_date := []\<rparr>]
 \<and> results (handleSortChange v8Sort dp ''published_date'' Desc
       (st\<lparr>results := [b, a\<lparr>published_date := []\<rparr>]\<rparr>)) = [a\<lparr>published_date := []\<rparr>, b]"
  by (simp add: handleSortChange_def v8Sort_pair compareFn_no_date getTime_def orEmpty_def)

end
